theory Spec2Isabelle
  imports Complex_Main "HOL-Library.Word"
begin

section \<open>States and the state interface\<close>

text \<open>
  \<^verbatim>\<open>using State = int;\<close> A state is a 32-bit signed integer: a word, read as two's
  complement. The program only compares states (\<^verbatim>\<open>==\<close>, \<^verbatim>\<open><=\<close>, \<^verbatim>\<open>>=\<close>), and the
  comparisons below are the signed ones of the word library.
\<close>

type_synonym State = "32 word"

text \<open>
  The program raises no exception and checks no argument. What can go wrong is undefined
  behaviour of C++: a member call through a null pointer (\<^verbatim>\<open>base->contains(s)\<close> with
  \<^verbatim>\<open>base == nullptr\<close>), and a \<^verbatim>\<open>std::uniform_int_distribution<int>\<close> built with bounds
  \<^verbatim>\<open>a > b\<close>, which its precondition excludes. A value \<open>Inl f\<close> of the model says
  that the run reached that undefined behaviour; it is not an error the program reports.
\<close>

datatype fault = NullDereference | DistributionRange

text \<open>
  The classes implementing \<^verbatim>\<open>IState\<close>. \<^verbatim>\<open>InverseState\<close> and \<^verbatim>\<open>IntersectState\<close> hold
  pointers, which may be null (\<open>None\<close>); \<^verbatim>\<open>UnifyState\<close> holds references, which cannot.
\<close>

datatype IState =
    DiscreteState State
  | SegmentState State State
  | InverseState "IState option"
  | IntersectState "IState option" "IState option"
  | UnifyState IState IState

text \<open>
  \<^verbatim>\<open>contains\<close>, one equation per override. \<^verbatim>\<open>&&\<close> and \<^verbatim>\<open>||\<close> evaluate their right
  operand only when the left one does not decide the result.
\<close>

fun contains :: "IState \<Rightarrow> State \<Rightarrow> fault + bool" where
  "contains (DiscreteState s0) s = Inr (s = s0)"
| "contains (SegmentState begin_s0 end_s0) s = Inr (begin_s0 \<le>s s \<and> s \<le>s end_s0)"
| "contains (InverseState None) s = Inl NullDereference"
| "contains (InverseState (Some base)) s =
     (case contains base s of Inl e \<Rightarrow> Inl e | Inr b \<Rightarrow> Inr (\<not> b))"
| "contains (IntersectState None second) s = Inl NullDereference"
| "contains (IntersectState (Some first) None) s =
     (case contains first s of
        Inl e \<Rightarrow> Inl e
      | Inr b \<Rightarrow> if b then Inl NullDereference else Inr False)"
| "contains (IntersectState (Some first) (Some second)) s =
     (case contains first s of
        Inl e \<Rightarrow> Inl e
      | Inr b \<Rightarrow> if b then contains second s else Inr False)"
| "contains (UnifyState first second) s =
     (case contains first s of
        Inl e \<Rightarrow> Inl e
      | Inr b \<Rightarrow> if b then Inr True else contains second s)"

text \<open>
  The factories of \<^verbatim>\<open>InverseState\<close> and \<^verbatim>\<open>IntersectState\<close>: \<^verbatim>\<open>create()\<close> stores null
  pointers, \<^verbatim>\<open>create(base)\<close> and \<^verbatim>\<open>create(first, second)\<close> store the pointers they are
  given, unchecked.
\<close>

definition InverseState_create :: IState where
  "InverseState_create = InverseState None"

definition InverseState_create_base :: "IState option \<Rightarrow> IState" where
  "InverseState_create_base base = InverseState base"

definition IntersectState_create :: IState where
  "IntersectState_create = IntersectState None None"

definition IntersectState_create_pair :: "IState option \<Rightarrow> IState option \<Rightarrow> IState" where
  "IntersectState_create_pair first second = IntersectState first second"

text \<open>A tree without null pointers: every \<^verbatim>\<open>contains\<close> on it returns a boolean.\<close>

fun defined_state :: "IState \<Rightarrow> bool" where
  "defined_state (DiscreteState s0) = True"
| "defined_state (SegmentState begin_s0 end_s0) = True"
| "defined_state (InverseState None) = False"
| "defined_state (InverseState (Some base)) = defined_state base"
| "defined_state (IntersectState (Some first) (Some second)) =
     (defined_state first \<and> defined_state second)"
| "defined_state (IntersectState _ _) = False"
| "defined_state (UnifyState first second) = (defined_state first \<and> defined_state second)"

section \<open>Single-precision arithmetic\<close>

text \<open>
  \<^verbatim>\<open>test\<close> returns \<^verbatim>\<open>static_cast<float>(good) / static_cast<float>(test_count)\<close>.
  A \<^verbatim>\<open>float\<close> is an IEEE 754 binary32 number: 24 significant bits, exponents from
  \<open>-126\<close> to \<open>127\<close>, rounding to nearest with ties to even. A finite float is modelled
  by its rational value; the model has one zero (the operands of \<^verbatim>\<open>test\<close> are conversions
  of unsigned integers, which are never \<open>-0\<close>).
\<close>

datatype float32 = Finite rat | Infinity bool | NaN

text \<open>Rounding a rational to the nearest integer, ties to the even one.\<close>

definition round_even :: "rat \<Rightarrow> int" where
  "round_even x =
     (let f = \<lfloor>x\<rfloor>; r = x - of_int f
      in if r < 1 / 2 then f
         else if 1 / 2 < r then f + 1
         else if even f then f else f + 1)"

text \<open>The number of binary digits of a positive integer.\<close>

function bit_length :: "int \<Rightarrow> int" where
  "bit_length n = (if n \<le> 0 then 0 else 1 + bit_length (n div 2))"
  by pat_completeness auto
termination
  by (relation "measure nat") auto

declare bit_length.simps [simp del]

text \<open>
  The binary exponent of a positive rational \<open>x = p / q\<close>: the \<open>e\<close> with
  \<open>2 ^ e \<le> x < 2 ^ (e + 1)\<close>, found from the bit lengths of \<open>p\<close> and \<open>q\<close>.
\<close>

definition binade :: "rat \<Rightarrow> int" where
  "binade x =
     (let (p, q) = quotient_of x; d = bit_length p - bit_length q
      in if 2 powi d \<le> x then d else d - 1)"

text \<open>
  Rounding to 24 significant bits. Below \<open>2 ^ (-126)\<close> the spacing stays that of the
  smallest normal binade (subnormal numbers).
\<close>

definition round_binary32 :: "rat \<Rightarrow> rat" where
  "round_binary32 x =
     (if x = 0 then 0
      else let e = max (binade \<bar>x\<bar>) (- 126); ulp = 2 powi (e - 23)
           in sgn x * of_int (round_even (\<bar>x\<bar> / ulp)) * ulp)"

definition to_float32 :: "rat \<Rightarrow> float32" where
  "to_float32 x =
     (let r = round_binary32 x in if 2 ^ 128 \<le> \<bar>r\<bar> then Infinity (r < 0) else Finite r)"

text \<open>\<^verbatim>\<open>static_cast<float>(u)\<close> for an \<^verbatim>\<open>unsigned\<close> \<open>u\<close>.\<close>

definition float_of_unsigned :: "32 word \<Rightarrow> float32" where
  "float_of_unsigned u = to_float32 (of_int (uint u))"

text \<open>
  Division of floats. A zero divisor gives \<open>NaN\<close> for \<open>0 / 0\<close> and an infinity
  otherwise; nothing traps.
\<close>

fun float_div :: "float32 \<Rightarrow> float32 \<Rightarrow> float32" where
  "float_div (Finite a) (Finite b) =
     (if b = 0 then (if a = 0 then NaN else Infinity (a < 0)) else to_float32 (a / b))"
| "float_div (Finite a) (Infinity s) = Finite 0"
| "float_div (Infinity s) (Finite b) = Infinity (s \<noteq> (b < 0))"
| "float_div (Infinity s) (Infinity t) = NaN"
| "float_div NaN y = NaN"
| "float_div x NaN = NaN"

section \<open>The random number library\<close>

text \<open>
  \<^verbatim>\<open>std::default_random_engine\<close> and \<^verbatim>\<open>std::uniform_int_distribution<int>\<close> belong to the
  C++ standard library, which leaves the engine and the algorithm of the distribution to
  the implementation. They are a parameter of the model: \<open>seed_engine\<close> is the
  constructor \<^verbatim>\<open>reng(seed)\<close>, and \<open>dstr_call a b g\<close> is the call \<^verbatim>\<open>dstr(reng)\<close> of a
  distribution built as \<^verbatim>\<open>dstr(a, b)\<close> on the engine state \<open>g\<close>: the value drawn and the
  state the engine is left in.
\<close>

record 'g random_library =
  seed_engine :: "32 word \<Rightarrow> 'g"
  dstr_call :: "State \<Rightarrow> State \<Rightarrow> 'g \<Rightarrow> State \<times> 'g"

text \<open>
  The engine of a run, with a ghost counter \<open>ndraws\<close> of the calls \<^verbatim>\<open>dstr(reng)\<close> made so
  far. \<open>dstr\<close> is one such call.
\<close>

record 'g engine =
  reng :: 'g
  ndraws :: nat

definition dstr :: "'g random_library \<Rightarrow> State \<Rightarrow> State \<Rightarrow> 'g engine \<Rightarrow> State \<times> 'g engine" where
  "dstr L a b st =
     (let (v, g) = dstr_call L a b (reng st)
      in (v, \<lparr>reng = g, ndraws = Suc (ndraws st)\<rparr>))"

text \<open>
  The sequence the library produces from an engine state \<open>g\<close>: the engine after \<open>k\<close>
  calls, and the value of call number \<open>k + 1\<close>.
\<close>

fun engine_after :: "'g random_library \<Rightarrow> State \<Rightarrow> State \<Rightarrow> 'g \<Rightarrow> nat \<Rightarrow> 'g" where
  "engine_after L a b g 0 = g"
| "engine_after L a b g (Suc k) = engine_after L a b (snd (dstr_call L a b g)) k"

definition draw_value :: "'g random_library \<Rightarrow> State \<Rightarrow> State \<Rightarrow> 'g \<Rightarrow> nat \<Rightarrow> State" where
  "draw_value L a b g k = fst (dstr_call L a b (engine_after L a b g k))"

text \<open>
  An instance of the library, to run the model on: libstdc++ on a 64-bit platform.
  There \<^verbatim>\<open>std::default_random_engine\<close> is \<^verbatim>\<open>std::minstd_rand0\<close>, the Lehmer generator
  \<open>x \<mapsto> 16807 * x mod (2 ^ 31 - 1)\<close> with outputs from \<open>1\<close> to \<open>2 ^ 31 - 2\<close>; a seed that
  is \<open>0\<close> modulo \<open>2 ^ 31 - 1\<close> becomes \<open>1\<close>.
\<close>

definition minstd_seed :: "32 word \<Rightarrow> int" where
  "minstd_seed seed = (if uint seed mod 2147483647 = 0 then 1 else uint seed mod 2147483647)"

definition minstd_next :: "int \<Rightarrow> int" where
  "minstd_next x = 16807 * x mod 2147483647"

text \<open>
  \<^verbatim>\<open>std::uniform_int_distribution<int>::operator()\<close> computes on 64-bit unsigned
  integers, with \<open>urange = b - a\<close> and the range \<open>2 ^ 31 - 3\<close> of the engine. Its loop
  \<^verbatim>\<open>do ret = urng() - urngmin; while (ret >= past);\<close> may not end (it does not from the
  engine state \<open>0\<close>, which seeding excludes), so it is a partial function.
\<close>

partial_function (option) minstd_below :: "int \<Rightarrow> int \<Rightarrow> (int \<times> int) option" where
  "minstd_below past x =
     (if past \<le> (minstd_next x - 1) mod 2 ^ 64 then minstd_below past (minstd_next x)
      else Some ((minstd_next x - 1) mod 2 ^ 64, minstd_next x))"

declare minstd_below.simps [code]

text \<open>
  A range narrower than the engine's: the output is divided by \<open>scaling\<close>, and outputs
  past the last full multiple of \<open>scaling\<close> are drawn again.
\<close>

definition minstd_downscale :: "int \<Rightarrow> int \<Rightarrow> (int \<times> int) option" where
  "minstd_downscale urange x =
     (let uerange = urange + 1;
          scaling = 2147483645 div uerange;
          past = uerange * scaling
      in Option.bind (minstd_below past x) (\<lambda>(ret, x'). Some (ret div scaling, x')))"

text \<open>
  A range wider than the engine's: a high part, drawn from \<open>[0, urange / (2 ^ 31 - 2)]\<close>
  (a narrow range), times \<open>2 ^ 31 - 2\<close>, plus one more output; drawn again when the sum
  is past \<open>urange\<close> or has wrapped around.
\<close>

partial_function (option) minstd_upscale :: "int \<Rightarrow> int \<Rightarrow> (int \<times> int) option" where
  "minstd_upscale urange x =
     Option.bind (minstd_downscale (urange div 2147483646) x)
       (\<lambda>(high, x1).
          if urange < (2147483646 * high + (minstd_next x1 - 1) mod 2 ^ 64) mod 2 ^ 64 \<or>
             (2147483646 * high + (minstd_next x1 - 1) mod 2 ^ 64) mod 2 ^ 64 <
               2147483646 * high
          then minstd_upscale urange (minstd_next x1)
          else Some ((2147483646 * high + (minstd_next x1 - 1) mod 2 ^ 64) mod 2 ^ 64,
                 minstd_next x1))"

declare minstd_upscale.simps [code]

text \<open>
  The call \<^verbatim>\<open>dstr(reng)\<close>: \<^verbatim>\<open>ret + a\<close>, converted to \<^verbatim>\<open>int\<close>. \<open>dstr_call\<close> is total; for a
  call that does not return, the instance gives \<open>a\<close> and leaves the engine as it is.
\<close>

definition minstd_call :: "State \<Rightarrow> State \<Rightarrow> int \<Rightarrow> State \<times> int" where
  "minstd_call a b x =
     (let urange = (sint b - sint a) mod 2 ^ 64;
          drawn =
            (if urange < 2147483645 then minstd_downscale urange x
             else if 2147483645 < urange then minstd_upscale urange x
             else Some ((minstd_next x - 1) mod 2 ^ 64, minstd_next x))
      in case drawn of
           Some (ret, x') \<Rightarrow> (word_of_int (ret + sint a), x')
         | None \<Rightarrow> (a, x))"

definition minstd :: "int random_library" where
  "minstd = \<lparr>seed_engine = minstd_seed, dstr_call = minstd_call\<rparr>"

section \<open>The probability test\<close>

record ProbabilityTest =
  E_min :: State
  E_max :: State

text \<open>
  The loop \<^verbatim>\<open>for (unsigned cnt = 0; cnt != test_count; cnt++)\<close> of \<^verbatim>\<open>test\<close>, from the
  values of \<^verbatim>\<open>cnt\<close> and \<^verbatim>\<open>good\<close> and the engine at the loop head. It returns \<^verbatim>\<open>good\<close>
  and the engine at the exit. The counters are \<^verbatim>\<open>unsigned\<close>: they wrap around.
\<close>

function test_loop ::
  "'g random_library \<Rightarrow> ProbabilityTest \<Rightarrow> IState \<Rightarrow> 32 word \<Rightarrow>
   32 word \<Rightarrow> 32 word \<Rightarrow> 'g engine \<Rightarrow> fault + (32 word \<times> 'g engine)" where
  "test_loop L this system test_count cnt good st =
     (if cnt = test_count then Inr (good, st)
      else let (v, st') = dstr L (E_min this) (E_max this) st
           in case contains system v of
                Inl e \<Rightarrow> Inl e
              | Inr b \<Rightarrow>
                  test_loop L this system test_count (cnt + 1)
                    (if b then good + 1 else good) st')"
  by pat_completeness auto
termination
proof (relation "measure (\<lambda>(L, this, system, test_count, cnt, good, st). unat (test_count - cnt))")
  show "wf (measure (\<lambda>(L :: 'g random_library, this :: ProbabilityTest, system :: IState,
      test_count :: 32 word, cnt :: 32 word, good :: 32 word, st :: 'g engine).
      unat (test_count - cnt)))"
    by simp
next
  fix L :: "'g random_library" and this :: ProbabilityTest and system :: IState
    and test_count cnt good :: "32 word" and st x :: "'g engine" and xa y xb b
  assume "cnt \<noteq> test_count"
  then have "test_count - cnt \<noteq> 0"
    by simp
  then have less: "unat (test_count - cnt - 1) < unat (test_count - cnt)"
    by (simp add: unat_minus_one unat_gt_0)
  have "test_count - (cnt + 1) = test_count - cnt - 1"
    by simp
  with less have "unat (test_count - (cnt + 1)) < unat (test_count - cnt)"
    by (simp only:)
  then show "((L, this, system, test_count, cnt + 1, if b then good + 1 else good, y),
      (L, this, system, test_count, cnt, good, st))
    \<in> measure (\<lambda>(L, this, system, test_count, cnt, good, st). unat (test_count - cnt))"
    by simp
qed

declare test_loop.simps [simp del]

text \<open>
  \<^verbatim>\<open>ProbabilityTest::test\<close>: the engine is seeded, the distribution is built on
  \<open>[E_min, E_max]\<close>, one value is drawn and dropped, the loop runs, and the quotient of
  the two counters is returned. \<open>test_run\<close> also returns the engine at the exit.
\<close>

definition test_run ::
  "'g random_library \<Rightarrow> ProbabilityTest \<Rightarrow> IState \<Rightarrow> 32 word \<Rightarrow> 32 word \<Rightarrow>
   fault + (float32 \<times> 'g engine)" where
  "test_run L this system test_count seed =
     (let st0 = \<lparr>reng = seed_engine L seed, ndraws = 0\<rparr>
      in if E_max this <s E_min this then Inl DistributionRange
         else let (v, st1) = dstr L (E_min this) (E_max this) st0
              in case test_loop L this system test_count 0 0 st1 of
                   Inl e \<Rightarrow> Inl e
                 | Inr (good, st) \<Rightarrow>
                     Inr (float_div (float_of_unsigned good) (float_of_unsigned test_count), st))"

definition test ::
  "'g random_library \<Rightarrow> ProbabilityTest \<Rightarrow> IState \<Rightarrow> 32 word \<Rightarrow> 32 word \<Rightarrow> fault + float32" where
  "test L this system test_count seed =
     (case test_run L this system test_count seed of
        Inl e \<Rightarrow> Inl e
      | Inr (r, st) \<Rightarrow> Inr r)"

text \<open>
  Counting the values of a list that a state contains, in order, stopping at the first
  evaluation that is undefined.
\<close>

fun count_contained :: "IState \<Rightarrow> State list \<Rightarrow> fault + nat" where
  "count_contained system [] = Inr 0"
| "count_contained system (v # vs) =
     (case contains system v of
        Inl e \<Rightarrow> Inl e
      | Inr b \<Rightarrow>
          (case count_contained system vs of
             Inl e \<Rightarrow> Inl e
           | Inr k \<Rightarrow> Inr (if b then Suc k else k)))"

definition fraction :: "nat \<Rightarrow> 32 word \<Rightarrow> float32" where
  "fraction k n = float_div (float_of_unsigned (of_nat k)) (float_of_unsigned n)"

text \<open>
  The estimate as the specification words it: the fraction of the first \<open>sampleCount\<close>
  values of the seeded generator that the predicate contains.
\<close>

definition spec_estimate ::
  "'g random_library \<Rightarrow> ProbabilityTest \<Rightarrow> IState \<Rightarrow> 32 word \<Rightarrow> 32 word \<Rightarrow> fault + float32" where
  "spec_estimate L this system sampleCount seed =
     (if E_max this <s E_min this then Inl DistributionRange
      else case count_contained system
             (map (draw_value L (E_min this) (E_max this) (seed_engine L seed))
                [0..<unat sampleCount]) of
             Inl e \<Rightarrow> Inl e
           | Inr k \<Rightarrow> Inr (fraction k sampleCount))"

text \<open>
  The same loop as a relation between the state at the loop head and the outcome of the
  run from there, one rule per path through the body.
\<close>

inductive loop_exec ::
  "'g random_library \<Rightarrow> ProbabilityTest \<Rightarrow> IState \<Rightarrow> 32 word \<Rightarrow>
   32 word \<times> 32 word \<times> 'g engine \<Rightarrow> fault + (32 word \<times> 'g engine) \<Rightarrow> bool"
  for L this system test_count where
  exit: "cnt = test_count \<Longrightarrow> loop_exec L this system test_count (cnt, good, st) (Inr (good, st))"
| hit: "cnt \<noteq> test_count \<Longrightarrow> dstr L (E_min this) (E_max this) st = (v, st') \<Longrightarrow>
     contains system v = Inr True \<Longrightarrow>
     loop_exec L this system test_count (cnt + 1, good + 1, st') r \<Longrightarrow>
     loop_exec L this system test_count (cnt, good, st) r"
| miss: "cnt \<noteq> test_count \<Longrightarrow> dstr L (E_min this) (E_max this) st = (v, st') \<Longrightarrow>
     contains system v = Inr False \<Longrightarrow>
     loop_exec L this system test_count (cnt + 1, good, st') r \<Longrightarrow>
     loop_exec L this system test_count (cnt, good, st) r"
| undefined_call: "cnt \<noteq> test_count \<Longrightarrow> dstr L (E_min this) (E_max this) st = (v, st') \<Longrightarrow>
     contains system v = Inl e \<Longrightarrow>
     loop_exec L this system test_count (cnt, good, st) (Inl e)"

text \<open>A run of \<^verbatim>\<open>test\<close> as a relation between its arguments and its outcome.\<close>

inductive test_exec ::
  "'g random_library \<Rightarrow> ProbabilityTest \<Rightarrow> IState \<Rightarrow> 32 word \<Rightarrow> 32 word \<Rightarrow>
   fault + (float32 \<times> 'g engine) \<Rightarrow> bool"
  for L this system test_count seed where
  bad_range: "E_max this <s E_min this \<Longrightarrow>
     test_exec L this system test_count seed (Inl DistributionRange)"
| undefined_run: "\<not> E_max this <s E_min this \<Longrightarrow>
     dstr L (E_min this) (E_max this) \<lparr>reng = seed_engine L seed, ndraws = 0\<rparr> = (v, st1) \<Longrightarrow>
     loop_exec L this system test_count (0, 0, st1) (Inl e) \<Longrightarrow>
     test_exec L this system test_count seed (Inl e)"
| returns: "\<not> E_max this <s E_min this \<Longrightarrow>
     dstr L (E_min this) (E_max this) \<lparr>reng = seed_engine L seed, ndraws = 0\<rparr> = (v, st1) \<Longrightarrow>
     loop_exec L this system test_count (0, 0, st1) (Inr (good, st)) \<Longrightarrow>
     test_exec L this system test_count seed
       (Inr (float_div (float_of_unsigned good) (float_of_unsigned test_count), st))"

section \<open>Properties of the single-precision model\<close>

lemma bit_length_step: "0 < n \<Longrightarrow> bit_length n = 1 + bit_length (n div 2)"
  by (subst bit_length.simps) simp

lemma bit_length_nonpos: "n \<le> 0 \<Longrightarrow> bit_length n = 0"
  by (subst bit_length.simps) simp

lemma bit_length_nonneg: "0 \<le> bit_length n"
proof (induction n rule: bit_length.induct)
  case (1 n)
  show ?case
  proof (cases "n \<le> 0")
    case True
    then show ?thesis by (simp add: bit_length_nonpos)
  next
    case False
    with "1.IH" have "0 \<le> bit_length (n div 2)" by simp
    with False show ?thesis by (simp add: bit_length_step)
  qed
qed

lemma bit_length_pos: "0 < n \<Longrightarrow> 0 < bit_length n"
  using bit_length_nonneg [of "n div 2"] by (simp add: bit_length_step)

lemma bit_length_bounds:
  "0 < n \<Longrightarrow> 2 ^ nat (bit_length n - 1) \<le> n \<and> n < 2 ^ nat (bit_length n)"
proof (induction n rule: bit_length.induct)
  case (1 n)
  show ?case
  proof (cases "n = 1")
    case True
    then show ?thesis by (simp add: bit_length_step bit_length_nonpos)
  next
    case False
    with "1.prems" have h: "0 < n div 2" by simp
    have len: "bit_length n = 1 + bit_length (n div 2)"
      using "1.prems" by (rule bit_length_step)
    from "1.prems" have "\<not> n \<le> 0" by simp
    note both = "1.IH" [OF this h]
    have ih: "2 ^ nat (bit_length (n div 2) - 1) \<le> n div 2" "n div 2 < 2 ^ nat (bit_length (n div 2))"
      using both by blast+
    define k where "k = bit_length (n div 2)"
    have p: "0 < k" unfolding k_def using h by (rule bit_length_pos)
    have e1: "nat (bit_length n - 1) = Suc (nat (k - 1))"
      unfolding len k_def [symmetric] using p by arith
    have e2: "nat (bit_length n) = Suc (nat k)"
      unfolding len k_def [symmetric] using p by arith
    from ih have "2 * 2 ^ nat (k - 1) \<le> n" "n < 2 * 2 ^ nat k"
      unfolding k_def by linarith+
    then show ?thesis
      unfolding e1 e2 by simp
  qed
qed

lemma binade_bounds:
  assumes "0 < x"
  shows "2 powi binade x \<le> x \<and> x < 2 powi (binade x + 1)"
proof -
  obtain p q where pq: "quotient_of x = (p, q)"
    by (cases "quotient_of x")
  have q: "0 < q" using pq by (rule quotient_of_denom_pos)
  have x: "x = of_int p / of_int q" using pq by (rule quotient_of_div)
  have p: "0 < p"
  proof (rule ccontr)
    assume "\<not> 0 < p"
    then have "of_int p \<le> (0 :: rat)" by simp
    with q have "of_int p / of_int q \<le> (0 :: rat)"
      by (simp add: divide_nonpos_pos)
    with x assms show False by simp
  qed
  define bp bq d where "bp = bit_length p" and "bq = bit_length q" and "d = bp - bq"
  let ?P = "of_int p :: rat" and ?Q = "of_int q :: rat"
  have Q: "0 < ?Q" using q by simp
  have xQ: "x * ?Q = ?P" using x Q by simp
  have bp: "0 < bp" and bq: "0 < bq"
    unfolding bp_def bq_def using p q by (simp_all add: bit_length_pos)
  from bit_length_bounds [OF p]
  have "(2 :: int) ^ nat (bp - 1) \<le> p" and "p < 2 ^ nat bp"
    unfolding bp_def by simp_all
  then have "of_int ((2 :: int) ^ nat (bp - 1)) \<le> ?P" and "?P < of_int (2 ^ nat bp)"
    by (simp_all only: of_int_le_iff of_int_less_iff)
  then have P: "2 powi (bp - 1) \<le> ?P" "?P < 2 powi bp"
    using bp by (simp_all add: power_int_nonneg_exp)
  from bit_length_bounds [OF q]
  have "(2 :: int) ^ nat (bq - 1) \<le> q" and "q < 2 ^ nat bq"
    unfolding bq_def by simp_all
  then have "of_int ((2 :: int) ^ nat (bq - 1)) \<le> ?Q" and "?Q < of_int (2 ^ nat bq)"
    by (simp_all only: of_int_le_iff of_int_less_iff)
  then have Qb: "2 powi (bq - 1) \<le> ?Q" "?Q < 2 powi bq"
    using bq by (simp_all add: power_int_nonneg_exp)
  have upper: "x < 2 powi (d + 1)"
  proof -
    have "?P < 2 powi (d + 1) * 2 powi (bq - 1)"
      using P(2) by (simp add: d_def flip: power_int_add)
    also have "\<dots> \<le> 2 powi (d + 1) * ?Q"
      using Qb(1) by (simp add: mult_left_mono)
    finally have "x * ?Q < 2 powi (d + 1) * ?Q" using xQ by simp
    with Q show ?thesis by simp
  qed
  have lower: "2 powi (d - 1) < x"
  proof -
    have "2 powi (d - 1) * ?Q < 2 powi (d - 1) * 2 powi bq"
      using Qb(2) by (simp add: mult_strict_left_mono)
    also have "\<dots> = 2 powi (bp - 1)"
      by (simp add: d_def flip: power_int_add)
    also have "\<dots> \<le> ?P" by (rule P(1))
    finally have "2 powi (d - 1) * ?Q < x * ?Q" using xQ by simp
    with Q show ?thesis by simp
  qed
  have b: "binade x = (if 2 powi d \<le> x then d else d - 1)"
    by (simp add: binade_def pq d_def bp_def bq_def)
  show ?thesis
  proof (cases "2 powi d \<le> x")
    case True
    with b upper show ?thesis by simp
  next
    case False
    with b lower show ?thesis by simp
  qed
qed

lemma binade_mono:
  assumes "0 < x" and "x \<le> y"
  shows "binade x \<le> binade y"
proof (rule ccontr)
  assume "\<not> binade x \<le> binade y"
  then have "binade y + 1 \<le> binade x" by simp
  then have "(2 :: rat) powi (binade y + 1) \<le> 2 powi binade x"
    by (rule power_int_increasing) simp
  also have "\<dots> \<le> x" using binade_bounds [OF assms(1)] by simp
  also have "\<dots> \<le> y" by (rule assms(2))
  finally show False using binade_bounds [of y] assms by simp
qed

lemma round_even_of_int: "round_even (of_int z) = z"
  by (simp add: round_even_def)

lemma round_even_floor: "\<lfloor>x\<rfloor> \<le> round_even x \<and> round_even x \<le> \<lfloor>x\<rfloor> + 1"
  by (simp add: round_even_def Let_def)

lemma round_even_mono:
  assumes "x \<le> y"
  shows "round_even x \<le> round_even y"
proof (cases "\<lfloor>x\<rfloor> = \<lfloor>y\<rfloor>")
  case True
  from assms have "x - of_int \<lfloor>y\<rfloor> \<le> y - of_int \<lfloor>y\<rfloor>" by simp
  then show ?thesis
    unfolding round_even_def Let_def True by (simp split: if_splits)
next
  case False
  with assms have "\<lfloor>x\<rfloor> + 1 \<le> \<lfloor>y\<rfloor>"
    using floor_mono [of x y] by simp
  with round_even_floor [of x] round_even_floor [of y] show ?thesis by linarith
qed

lemma round_binary32_pos:
  "0 < x \<Longrightarrow> round_binary32 x =
     of_int (round_even (x / 2 powi (max (binade x) (- 126) - 23))) *
       2 powi (max (binade x) (- 126) - 23)"
  by (simp add: round_binary32_def Let_def)

lemma round_binary32_upper:
  assumes "0 < x"
  shows "round_binary32 x \<le> 2 powi (max (binade x) (- 126) + 1)"
proof -
  define e where "e = max (binade x) (- 126)"
  define u :: rat where "u = 2 powi (e - 23)"
  have u: "0 < u" by (simp add: u_def)
  have top: "16777216 * u = 2 powi (e + 1)"
    using power_int_add [of "2 :: rat" 24 "e - 23"] by (simp add: u_def add.commute)
  have "x < 2 powi (binade x + 1)" using binade_bounds [OF assms] by simp
  also have "\<dots> \<le> 2 powi (e + 1)"
    by (rule power_int_increasing) (simp_all add: e_def)
  finally have "x / u \<le> 16777216" using u top by (simp add: pos_divide_le_eq)
  then have "x / u \<le> of_int 16777216" by simp
  then have "round_even (x / u) \<le> round_even (of_int 16777216)"
    by (rule round_even_mono)
  then have "round_even (x / u) \<le> 16777216" by (simp only: round_even_of_int)
  then have "(of_int (round_even (x / u)) :: rat) \<le> of_int 16777216"
    by (simp only: of_int_le_iff)
  then have "of_int (round_even (x / u)) * u \<le> 16777216 * u"
    using u by (simp add: mult_right_mono)
  then show ?thesis
    unfolding round_binary32_pos [OF assms] top e_def [symmetric] u_def [symmetric] .
qed

lemma round_binary32_lower:
  assumes "0 < x" and "- 126 \<le> binade x"
  shows "2 powi binade x \<le> round_binary32 x"
proof -
  have m: "max (binade x) (- 126) = binade x" using assms(2) by simp
  define u :: rat where "u = 2 powi (binade x - 23)"
  have u: "0 < u" by (simp add: u_def)
  have bot: "8388608 * u = 2 powi binade x"
    using power_int_add [of "2 :: rat" 23 "binade x - 23"] by (simp add: u_def)
  have "2 powi binade x \<le> x" using binade_bounds [OF assms(1)] by simp
  then have "of_int 8388608 \<le> x / u" using u bot by (simp add: pos_le_divide_eq)
  then have "round_even (of_int 8388608) \<le> round_even (x / u)"
    by (rule round_even_mono)
  then have "8388608 \<le> round_even (x / u)" by (simp only: round_even_of_int)
  then have "(of_int 8388608 :: rat) \<le> of_int (round_even (x / u))"
    by (simp only: of_int_le_iff)
  then have "8388608 * u \<le> of_int (round_even (x / u)) * u"
    using u by (simp add: mult_right_mono)
  then show ?thesis
    unfolding round_binary32_pos [OF assms(1)] m bot u_def [symmetric] .
qed

lemma round_binary32_nonneg:
  assumes "0 \<le> x"
  shows "0 \<le> round_binary32 x"
proof (cases "x = 0")
  case True
  then show ?thesis by (simp add: round_binary32_def)
next
  case False
  with assms have x: "0 < x" by simp
  define u :: rat where "u = 2 powi (max (binade x) (- 126) - 23)"
  have u: "0 < u" by (simp add: u_def)
  with x have "0 \<le> x / u" by simp
  then have "round_even (of_int 0) \<le> round_even (x / u)"
    by (intro round_even_mono) simp
  then have "0 \<le> round_even (x / u)" by (simp only: round_even_of_int)
  with u show ?thesis
    unfolding round_binary32_pos [OF x] u_def [symmetric] by simp
qed

lemma round_binary32_mono:
  assumes "0 \<le> x" and "x \<le> y"
  shows "round_binary32 x \<le> round_binary32 y"
proof (cases "x = 0")
  case True
  with assms round_binary32_nonneg [of y] show ?thesis
    by (simp add: round_binary32_def)
next
  case False
  with assms have x: "0 < x" and y: "0 < y" by simp_all
  have b: "binade x \<le> binade y" using x assms(2) by (rule binade_mono)
  show ?thesis
  proof (cases "max (binade x) (- 126) = max (binade y) (- 126)")
    case True
    define u :: rat where "u = 2 powi (max (binade y) (- 126) - 23)"
    have u: "0 < u" by (simp add: u_def)
    with assms(2) have "x / u \<le> y / u" by (simp add: divide_right_mono)
    then have "round_even (x / u) \<le> round_even (y / u)" by (rule round_even_mono)
    then have "(of_int (round_even (x / u)) :: rat) \<le> of_int (round_even (y / u))"
      by (simp only: of_int_le_iff)
    then have "of_int (round_even (x / u)) * u \<le> of_int (round_even (y / u)) * u"
      using u by (simp add: mult_right_mono)
    then show ?thesis
      unfolding round_binary32_pos [OF x] round_binary32_pos [OF y] True u_def [symmetric] .
  next
    case False
    with b have less: "max (binade x) (- 126) + 1 \<le> binade y" and norm: "- 126 \<le> binade y"
      by simp_all
    have "round_binary32 x \<le> 2 powi (max (binade x) (- 126) + 1)"
      using x by (rule round_binary32_upper)
    also have "\<dots> \<le> 2 powi binade y"
      using less by (rule power_int_increasing) simp
    also have "\<dots> \<le> round_binary32 y"
      using y norm by (rule round_binary32_lower)
    finally show ?thesis .
  qed
qed

lemma round_binary32_one: "round_binary32 1 = 1"
  by code_simp

lemma round_binary32_top: "round_binary32 4294967296 = 4294967296"
  by code_simp

lemma to_float32_Finite:
  assumes "0 \<le> x" and "x \<le> 4294967296"
  shows "to_float32 x = Finite (round_binary32 x)"
proof -
  have "0 \<le> round_binary32 x" using assms(1) by (rule round_binary32_nonneg)
  moreover have "round_binary32 x \<le> round_binary32 4294967296"
    using assms by (rule round_binary32_mono)
  ultimately have "\<bar>round_binary32 x\<bar> \<le> 4294967296"
    by (simp add: round_binary32_top)
  then have "\<not> 2 ^ 128 \<le> \<bar>round_binary32 x\<bar>" by simp
  then show ?thesis by (simp add: to_float32_def Let_def)
qed

lemma float_of_unsigned_Finite:
  "float_of_unsigned u = Finite (round_binary32 (of_int (uint u)))"
proof -
  have "uint u < 2 ^ 32" using uint_bounded [of u] by simp
  then have "uint u \<le> 4294967296" by simp
  then have hi: "(of_int (uint u) :: rat) \<le> of_int 4294967296" by (simp only: of_int_le_iff)
  have "0 \<le> uint u" by simp
  then have lo: "(0 :: rat) \<le> of_int (uint u)" by (simp only: of_int_0_le_iff)
  from hi have hi': "(of_int (uint u) :: rat) \<le> 4294967296" by simp
  show ?thesis
    unfolding float_of_unsigned_def using lo hi' by (rule to_float32_Finite)
qed

lemma fraction_range:
  assumes "k \<le> unat n" and "n \<noteq> 0"
  shows "\<exists>r. fraction k n = Finite r \<and> 0 \<le> r \<and> r \<le> 1"
proof -
  define a b where "a = round_binary32 (of_int (int k))"
    and "b = round_binary32 (of_int (uint n))"
  have "unat (of_nat k :: 32 word) = k" using assms(1) by (rule le_unat_uoi)
  then have k: "uint (of_nat k :: 32 word) = int k" by (simp only: uint_nat)
  have kn: "int k \<le> uint n" using assms(1) by (simp only: uint_nat of_nat_le_iff)
  have "0 < unat n" using assms(2) by (simp add: unat_gt_0)
  then have "1 \<le> uint n" by (simp only: uint_nat)
  then have "(of_int 1 :: rat) \<le> of_int (uint n)" by (simp only: of_int_le_iff)
  then have one: "(1 :: rat) \<le> of_int (uint n)" by (simp only: of_int_1)
  have "round_binary32 1 \<le> b" unfolding b_def using _ one by (rule round_binary32_mono) simp
  then have b: "1 \<le> b" by (simp only: round_binary32_one)
  have a: "0 \<le> a" unfolding a_def by (rule round_binary32_nonneg) simp
  have le: "(of_int (int k) :: rat) \<le> of_int (uint n)" using kn by (simp only: of_int_le_iff)
  have ab: "a \<le> b" unfolding a_def b_def using _ le by (rule round_binary32_mono) simp
  have q0: "0 \<le> a / b" using a b by simp
  have q1: "a / b \<le> 1" using ab b by simp
  have b0: "b \<noteq> 0" using b by simp
  have "fraction k n = float_div (Finite a) (Finite b)"
    by (simp only: fraction_def float_of_unsigned_Finite k a_def b_def)
  also have "\<dots> = to_float32 (a / b)" using b0 by simp
  also have "\<dots> = Finite (round_binary32 (a / b))"
    using q0 q1 by (intro to_float32_Finite) simp_all
  finally have eq: "fraction k n = Finite (round_binary32 (a / b))" .
  have "0 \<le> round_binary32 (a / b)" using q0 by (rule round_binary32_nonneg)
  moreover have "round_binary32 (a / b) \<le> round_binary32 1"
    using q0 q1 by (rule round_binary32_mono)
  ultimately show ?thesis using eq by (simp add: round_binary32_one)
qed

lemma float_div_zero: "float_div (float_of_unsigned 0) (float_of_unsigned 0) = NaN"
  by (simp add: float_of_unsigned_def to_float32_def round_binary32_def)

section \<open>The predicate algebra\<close>

lemma defined_state_contains:
  "defined_state p \<Longrightarrow> \<exists>b. contains p s = Inr b"
  by (induction p s rule: contains.induct) (auto split: sum.splits)

text \<open>
  C7. A \<^verbatim>\<open>SegmentState(lo, hi)\<close> with \<open>lo \<le> hi\<close> contains \<open>s\<close> exactly when
  \<open>lo \<le> s \<le> hi\<close>; with \<open>lo > hi\<close> it contains no state, and the bounds are not validated.
\<close>

theorem SegmentState_contains:
  "(lo \<le>s hi \<longrightarrow> contains (SegmentState lo hi) s = Inr (lo \<le>s s \<and> s \<le>s hi)) \<and>
   (hi <s lo \<longrightarrow> contains (SegmentState lo hi) s = Inr False)"
  by (auto simp: word_sle_eq word_sless_alt)

theorem SegmentState_contains_witness:
  "(0 :: State) \<le>s 500 \<and> contains (SegmentState 0 500) 500 = Inr True \<and>
   contains (SegmentState 0 500) (- 1) = Inr False \<and>
   (- 5 :: State) <s 5 \<and> contains (SegmentState 5 (- 5)) 0 = Inr False"
  using SegmentState_contains [of 0 500 500] SegmentState_contains [of 0 500 "- 1"]
    SegmentState_contains [of 5 "- 5" 0]
  by (simp add: word_sle_eq word_sless_alt)

text \<open>
  C9. With a defined base, \<^verbatim>\<open>InverseState\<close> negates: the outcome of
  \<^verbatim>\<open>contains\<close> on \<open>Not(p)\<close> is that of \<open>p\<close> with the boolean negated, and two negations
  give back the outcome of \<open>p\<close>.
\<close>

theorem InverseState_contains:
  "contains (InverseState_create_base (Some p)) s = map_sum id Not (contains p s) \<and>
   contains (InverseState_create_base (Some (InverseState_create_base (Some p)))) s =
     contains p s"
  by (cases "contains p s") (simp_all add: InverseState_create_base_def)

text \<open>
  C8. De Morgan: \<open>Not(And(a, b))\<close> and \<open>Or(Not(a), Not(b))\<close> have the same outcome of
  \<^verbatim>\<open>contains\<close> at every state.
\<close>

theorem De_Morgan:
  "contains (InverseState_create_base (Some (IntersectState_create_pair (Some a) (Some b)))) s =
   contains (UnifyState (InverseState_create_base (Some a))
     (InverseState_create_base (Some b))) s"
  by (cases "contains a s"; cases "contains b s")
    (simp_all add: InverseState_create_base_def IntersectState_create_pair_def)

text \<open>
  C3 (as stated). The claim wants a defined error, at construction or at first use, for an
  \<^verbatim>\<open>InverseState\<close> without a base. The factory \<^verbatim>\<open>create()\<close> builds it without a check, and
  \<^verbatim>\<open>contains\<close> then calls through the null pointer: undefined behaviour, no error.
\<close>

theorem InverseState_create_undefined:
  "contains InverseState_create 0 = Inl NullDereference"
  by (simp add: InverseState_create_def)

text \<open>
  C3 (amended). \<^verbatim>\<open>InverseState::create()\<close> stores a null base without a check; every
  \<^verbatim>\<open>contains\<close> on the result, alone or under a further negation, dereferences the null
  pointer, which is undefined behaviour and not a reported error.
\<close>

theorem InverseState_create_contains:
  "\<not> defined_state InverseState_create \<and>
   contains InverseState_create s = Inl NullDereference \<and>
   contains (InverseState_create_base (Some InverseState_create)) s = Inl NullDereference"
  by (simp add: InverseState_create_def InverseState_create_base_def)

section \<open>The loop of the probability test\<close>

lemma draw_value_Suc:
  "draw_value L a b g (Suc k) = draw_value L a b (snd (dstr_call L a b g)) k"
  by (simp add: draw_value_def)

lemma test_loop_count:
  "unat (test_count - cnt) = m \<Longrightarrow>
   test_loop L this system test_count cnt good st =
     (case count_contained system
        (map (draw_value L (E_min this) (E_max this) (reng st)) [0..<m]) of
        Inl e \<Rightarrow> Inl e
      | Inr k \<Rightarrow>
          Inr (good + of_nat k,
            \<lparr>reng = engine_after L (E_min this) (E_max this) (reng st) m,
             ndraws = ndraws st + m\<rparr>))"
proof (induction m arbitrary: cnt good st)
  case 0
  then have "cnt = test_count" by (simp add: unat_eq_0)
  then show ?case
    by (subst test_loop.simps) simp
next
  case (Suc m)
  let ?a = "E_min this" and ?b = "E_max this"
  obtain v g where call: "dstr_call L ?a ?b (reng st) = (v, g)"
    by (cases "dstr_call L ?a ?b (reng st)")
  define st' where "st' = \<lparr>reng = g, ndraws = Suc (ndraws st)\<rparr>"
  have step: "dstr L ?a ?b st = (v, st')"
    by (simp add: dstr_def call st'_def)
  from Suc.prems have ne: "cnt \<noteq> test_count" by auto
  then have nz: "test_count - cnt \<noteq> 0" by simp
  have "unat (test_count - cnt - 1) = unat (test_count - cnt) - 1"
    using nz by (rule unat_minus_one)
  moreover have "test_count - (cnt + 1) = test_count - cnt - 1" by simp
  ultimately have rest: "unat (test_count - (cnt + 1)) = m"
    using Suc.prems by (simp only: diff_Suc_1)
  have first: "draw_value L ?a ?b (reng st) 0 = v"
    by (simp add: draw_value_def call)
  have later: "map (\<lambda>i. draw_value L ?a ?b (reng st) (Suc i)) [0..<m] =
      map (draw_value L ?a ?b (reng st')) [0..<m]"
    by (simp add: draw_value_Suc call st'_def)
  have after: "engine_after L ?a ?b (reng st) (Suc m) = engine_after L ?a ?b (reng st') m"
    by (simp add: call st'_def)
  have unfold: "test_loop L this system test_count cnt good st =
      (case contains system v of
         Inl e \<Rightarrow> Inl e
       | Inr b \<Rightarrow> test_loop L this system test_count (cnt + 1) (if b then good + 1 else good) st')"
    using ne by (subst test_loop.simps) (simp add: step)
  show ?case
  proof (cases "contains system v")
    case (Inl e)
    then show ?thesis
      by (simp add: unfold map_upt_Suc first del: upt_Suc)
  next
    case (Inr b)
    have nd: "ndraws st' + m = ndraws st + Suc m" by (simp add: st'_def)
    show ?thesis
      unfolding unfold Inr sum.case Suc.IH [OF rest] map_upt_Suc first later after nd
      by (cases "count_contained system (map (draw_value L ?a ?b (reng st')) [0..<m])")
        (simp_all add: Inr)
  qed
qed


lemma test_run_count:
  assumes "\<not> E_max this <s E_min this"
  shows "test_run L this system n seed =
     (case count_contained system
        (map (draw_value L (E_min this) (E_max this) (seed_engine L seed)) [1..<Suc (unat n)]) of
        Inl e \<Rightarrow> Inl e
      | Inr k \<Rightarrow>
          Inr (fraction k n,
            \<lparr>reng = engine_after L (E_min this) (E_max this) (seed_engine L seed) (Suc (unat n)),
             ndraws = Suc (unat n)\<rparr>))"
proof -
  let ?a = "E_min this" and ?b = "E_max this" and ?g = "seed_engine L seed"
  obtain v g where call: "dstr_call L ?a ?b ?g = (v, g)"
    by (cases "dstr_call L ?a ?b ?g")
  define st1 where "st1 = \<lparr>reng = g, ndraws = Suc 0\<rparr>"
  have step: "dstr L ?a ?b \<lparr>reng = ?g, ndraws = 0\<rparr> = (v, st1)"
    by (simp add: dstr_def call st1_def)
  have "map (draw_value L ?a ?b ?g) (map Suc [0..<unat n]) =
      map (draw_value L ?a ?b (reng st1)) [0..<unat n]"
    by (simp add: draw_value_Suc call st1_def)
  then have later: "map (draw_value L ?a ?b ?g) [1..<Suc (unat n)] =
      map (draw_value L ?a ?b (reng st1)) [0..<unat n]"
    by (simp only: map_Suc_upt One_nat_def)
  have after: "engine_after L ?a ?b ?g (Suc (unat n)) = engine_after L ?a ?b (reng st1) (unat n)"
    by (simp add: call st1_def)
  have loop: "test_loop L this system n 0 0 st1 =
     (case count_contained system (map (draw_value L ?a ?b (reng st1)) [0..<unat n]) of
        Inl e \<Rightarrow> Inl e
      | Inr k \<Rightarrow>
          Inr (0 + of_nat k,
            \<lparr>reng = engine_after L ?a ?b (reng st1) (unat n), ndraws = ndraws st1 + unat n\<rparr>))"
    by (rule test_loop_count) simp
  have "test_run L this system n seed =
      (case test_loop L this system n 0 0 st1 of
         Inl e \<Rightarrow> Inl e
       | Inr (good, st) \<Rightarrow> Inr (float_div (float_of_unsigned good) (float_of_unsigned n), st))"
    using assms by (simp add: test_run_def step)
  also have "\<dots> =
      (case count_contained system (map (draw_value L ?a ?b (reng st1)) [0..<unat n]) of
         Inl e \<Rightarrow> Inl e
       | Inr k \<Rightarrow>
           Inr (fraction k n,
             \<lparr>reng = engine_after L ?a ?b (reng st1) (unat n), ndraws = Suc (unat n)\<rparr>))"
    unfolding loop
    by (cases "count_contained system (map (draw_value L ?a ?b (reng st1)) [0..<unat n])")
      (simp_all add: fraction_def st1_def)
  finally show ?thesis
    unfolding later after .
qed

lemma defined_state_count:
  "defined_state system \<Longrightarrow> \<exists>k. count_contained system vs = Inr k \<and> k \<le> length vs"
proof (induction vs)
  case Nil
  then show ?case by simp
next
  case (Cons v vs)
  from Cons.prems obtain b where "contains system v = Inr b"
    using defined_state_contains by blast
  moreover from Cons obtain k where "count_contained system vs = Inr k" and "k \<le> length vs"
    by blast
  ultimately show ?case by simp
qed

lemma loop_exec_test_loop:
  "loop_exec L this system test_count (cnt, good, st)
     (test_loop L this system test_count cnt good st)"
proof (induction L this system test_count cnt good st rule: test_loop.induct)
  case (1 L this system test_count cnt good st)
  show ?case
  proof (cases "cnt = test_count")
    case True
    then show ?thesis
      by (subst test_loop.simps) (simp add: loop_exec.exit)
  next
    case False
    obtain v st' where step: "dstr L (E_min this) (E_max this) st = (v, st')"
      by (cases "dstr L (E_min this) (E_max this) st")
    show ?thesis
    proof (cases "contains system v")
      case (Inl e)
      have "test_loop L this system test_count cnt good st = Inl e"
        using False by (subst test_loop.simps) (simp add: step Inl)
      moreover from False step Inl
      have "loop_exec L this system test_count (cnt, good, st) (Inl e)"
        by (rule loop_exec.undefined_call)
      ultimately show ?thesis by simp
    next
      case (Inr b)
      from "1.IH" [OF False step [symmetric] refl Inr]
      have ih: "loop_exec L this system test_count (cnt + 1, if b then good + 1 else good, st')
          (test_loop L this system test_count (cnt + 1) (if b then good + 1 else good) st')" .
      have eq: "test_loop L this system test_count cnt good st =
          test_loop L this system test_count (cnt + 1) (if b then good + 1 else good) st'"
        using False by (subst test_loop.simps) (simp add: step Inr)
      show ?thesis
      proof (cases b)
        case True
        with ih Inr have next_state: "loop_exec L this system test_count (cnt + 1, good + 1, st')
            (test_loop L this system test_count cnt good st)"
          by (simp add: eq)
        from Inr True have "contains system v = Inr True" by simp
        with False step show ?thesis
          using next_state by (rule loop_exec.hit)
      next
        case b: False
        with ih Inr have next_state: "loop_exec L this system test_count (cnt + 1, good, st')
            (test_loop L this system test_count cnt good st)"
          by (simp add: eq)
        from Inr b have "contains system v = Inr False" by simp
        with False step show ?thesis
          using next_state by (rule loop_exec.miss)
      qed
    qed
  qed
qed

section \<open>Runs as a relation\<close>

lemma loop_exec_deterministic:
  "loop_exec L this system test_count s r \<Longrightarrow>
   loop_exec L this system test_count s r' \<Longrightarrow> r' = r"
proof (induction arbitrary: r' rule: loop_exec.induct)
  case (exit cnt good st)
  from exit.prems exit.hyps show ?case
    by (cases rule: loop_exec.cases) simp_all
next
  case (hit cnt st v st' good r)
  from hit.prems hit.hyps(1-3) have "loop_exec L this system test_count (cnt + 1, good + 1, st') r'"
    by (cases rule: loop_exec.cases) simp_all
  then show ?case by (rule hit.IH)
next
  case (miss cnt st v st' good r)
  from miss.prems miss.hyps(1-3) have "loop_exec L this system test_count (cnt + 1, good, st') r'"
    by (cases rule: loop_exec.cases) simp_all
  then show ?case by (rule miss.IH)
next
  case (undefined_call cnt st v st' e good)
  from undefined_call.prems undefined_call.hyps show ?case
    by (cases rule: loop_exec.cases) simp_all
qed

lemma test_exec_test_run:
  "test_exec L this system test_count seed (test_run L this system test_count seed)"
proof (cases "E_max this <s E_min this")
  case True
  then show ?thesis
    by (simp add: test_run_def test_exec.bad_range)
next
  case False
  obtain v st1 where step:
    "dstr L (E_min this) (E_max this) \<lparr>reng = seed_engine L seed, ndraws = 0\<rparr> = (v, st1)"
    by (cases "dstr L (E_min this) (E_max this) \<lparr>reng = seed_engine L seed, ndraws = 0\<rparr>")
  have loop: "loop_exec L this system test_count (0, 0, st1)
      (test_loop L this system test_count 0 0 st1)"
    by (rule loop_exec_test_loop)
  show ?thesis
  proof (cases "test_loop L this system test_count 0 0 st1")
    case (Inl e)
    with False step loop show ?thesis
      by (simp add: test_run_def test_exec.undefined_run)
  next
    case (Inr p)
    obtain good st where p: "p = (good, st)" by (cases p)
    from loop have "loop_exec L this system test_count (0, 0, st1) (Inr (good, st))"
      by (simp add: Inr p)
    with False step have "test_exec L this system test_count seed
        (Inr (float_div (float_of_unsigned good) (float_of_unsigned test_count), st))"
      by (rule test_exec.returns)
    then show ?thesis
      using False by (simp add: test_run_def step Inr p)
  qed
qed

section \<open>The estimate\<close>

lemma engine_after_dstr_call:
  "dstr_call L' = dstr_call L \<Longrightarrow> engine_after L' a b g k = engine_after L a b g k"
  by (induction k arbitrary: g) simp_all

lemma count_contained_cong:
  "list_all (\<lambda>v. contains system' v = contains system v) vs \<Longrightarrow>
   count_contained system' vs = count_contained system vs"
  by (induction vs) (auto split: sum.splits)

lemma test_count:
  assumes "\<not> E_max this <s E_min this"
  shows "test L this system n seed =
     (case count_contained system
        (map (draw_value L (E_min this) (E_max this) (seed_engine L seed)) [1..<Suc (unat n)]) of
        Inl e \<Rightarrow> Inl e
      | Inr k \<Rightarrow> Inr (fraction k n))"
  unfolding test_def test_run_count [OF assms]
  by (simp split: sum.splits)

text \<open>
  C1 (as stated). The claim makes the estimate the fraction of the first \<open>sampleCount\<close>
  values of the seeded generator. On the range \<open>[-1000, 1000]\<close> with seed \<open>1\<close> the
  library draws \<open>-1000\<close> and then \<open>-737\<close>. For \<^verbatim>\<open>DiscreteState(-1000)\<close> and one sample,
  \<^verbatim>\<open>test\<close> evaluates \<^verbatim>\<open>contains\<close> on \<open>-737\<close> alone and returns \<open>0\<close>, while the first value
  drawn is contained: the fraction of the first sample is \<open>1\<close>.
\<close>

theorem test_differs_from_spec_estimate:
  "map (draw_value minstd (- 1000) 1000 (minstd_seed 1)) [0..<2] = [- 1000, - 737] \<and>
   test minstd \<lparr>E_min = - 1000, E_max = 1000\<rparr> (DiscreteState (- 1000)) 1 1 =
     Inr (Finite 0) \<and>
   spec_estimate minstd \<lparr>E_min = - 1000, E_max = 1000\<rparr> (DiscreteState (- 1000)) 1 1 =
     Inr (Finite 1) \<and>
   test minstd \<lparr>E_min = - 1000, E_max = 1000\<rparr> (DiscreteState (- 1000)) 1 1 \<noteq>
     spec_estimate minstd \<lparr>E_min = - 1000, E_max = 1000\<rparr> (DiscreteState (- 1000)) 1 1"
  by code_simp

text \<open>
  C1 (amended). \<^verbatim>\<open>test\<close> seeds the generator, draws one value and drops it, and then is the
  estimate of the specification on the generator so advanced: it draws \<open>sampleCount\<close>
  further values, evaluates \<^verbatim>\<open>contains\<close> on each, and returns the count of hits divided
  by \<open>sampleCount\<close> in single precision.
\<close>

theorem test_is_spec_estimate_after_one_draw:
  "test L this system n seed =
   spec_estimate
     (L\<lparr>seed_engine := \<lambda>s. snd (dstr_call L (E_min this) (E_max this) (seed_engine L s))\<rparr>)
     this system n seed"
proof (cases "E_max this <s E_min this")
  case True
  then show ?thesis
    by (simp add: test_def test_run_def spec_estimate_def)
next
  case False
  let ?a = "E_min this" and ?b = "E_max this"
  let ?L = "L\<lparr>seed_engine := \<lambda>s. snd (dstr_call L ?a ?b (seed_engine L s))\<rparr>"
  have same: "dstr_call ?L = dstr_call L" by simp
  have "draw_value L ?a ?b (seed_engine L seed) (Suc i) =
      draw_value ?L ?a ?b (seed_engine ?L seed) i" for i
    by (simp add: draw_value_def engine_after_dstr_call [OF same])
  then have "map (draw_value L ?a ?b (seed_engine L seed)) (map Suc [0..<unat n]) =
      map (draw_value ?L ?a ?b (seed_engine ?L seed)) [0..<unat n]"
    by (simp only: map_map o_def)
  then have "map (draw_value L ?a ?b (seed_engine L seed)) [1..<Suc (unat n)] =
      map (draw_value ?L ?a ?b (seed_engine ?L seed)) [0..<unat n]"
    by (simp only: map_Suc_upt One_nat_def)
  with False show ?thesis
    by (simp add: test_count spec_estimate_def)
qed

text \<open>
  C10. After seeding, one value is drawn and dropped before the loop: the estimate counts
  the values number \<open>2\<close> to \<open>sampleCount + 1\<close> of the seeded generator, and \<^verbatim>\<open>contains\<close>
  is never evaluated on the first value, so two states that agree on the values number
  \<open>2\<close> to \<open>sampleCount + 1\<close> get the same estimate, whatever they say about the first.
\<close>

theorem test_discards_first_draw:
  assumes "\<not> E_max this <s E_min this"
  shows "test L this system n seed =
     (case count_contained system
        (map (draw_value L (E_min this) (E_max this) (seed_engine L seed)) [1..<Suc (unat n)]) of
        Inl e \<Rightarrow> Inl e
      | Inr k \<Rightarrow> Inr (fraction k n)) \<and>
   (list_all (\<lambda>v. contains system' v = contains system v)
      (map (draw_value L (E_min this) (E_max this) (seed_engine L seed)) [1..<Suc (unat n)]) \<longrightarrow>
    test L this system' n seed = test L this system n seed)"
  by (simp add: test_count [OF assms] count_contained_cong)

theorem test_discards_first_draw_witness:
  "\<not> E_max \<lparr>E_min = - 1000, E_max = 1000\<rparr> <s E_min \<lparr>E_min = - 1000, E_max = 1000\<rparr> \<and>
   map (draw_value minstd (- 1000) 1000 (minstd_seed 1)) [0..<4] = [- 1000, - 737, 511, - 83] \<and>
   contains (DiscreteState (- 1000)) (- 1000) = Inr True \<and>
   contains (DiscreteState 7) (- 1000) = Inr False \<and>
   test minstd \<lparr>E_min = - 1000, E_max = 1000\<rparr> (DiscreteState 7) 3 1 =
     test minstd \<lparr>E_min = - 1000, E_max = 1000\<rparr> (DiscreteState (- 1000)) 3 1 \<and>
   test minstd \<lparr>E_min = - 1000, E_max = 1000\<rparr> (DiscreteState (- 1000)) 3 1 = Inr (fraction 0 3)"
proof -
  let ?T = "\<lparr>E_min = - 1000, E_max = 1000\<rparr>"
  have range: "\<not> E_max ?T <s E_min ?T"
    by code_simp
  have draws: "map (draw_value minstd (- 1000) 1000 (minstd_seed 1)) [0..<4] =
      [- 1000, - 737, 511, - 83]"
    by code_simp
  have agree: "list_all (\<lambda>v. contains (DiscreteState 7) v = contains (DiscreteState (- 1000)) v)
      (map (draw_value minstd (E_min ?T) (E_max ?T) (seed_engine minstd 1))
        [1..<Suc (unat (3 :: 32 word))])"
    by code_simp
  have count: "count_contained (DiscreteState (- 1000))
      (map (draw_value minstd (E_min ?T) (E_max ?T) (seed_engine minstd 1))
        [1..<Suc (unat (3 :: 32 word))]) = Inr 0"
    by code_simp
  note claim = test_discards_first_draw [OF range, of minstd _ 3 1]
  from claim [of "DiscreteState (- 1000)" "DiscreteState 7"] agree
  have "test minstd ?T (DiscreteState 7) 3 1 = test minstd ?T (DiscreteState (- 1000)) 3 1"
    by blast
  moreover from claim [of "DiscreteState (- 1000)" "DiscreteState 7"] count
  have "test minstd ?T (DiscreteState (- 1000)) 3 1 = Inr (fraction 0 3)"
    by simp
  ultimately show ?thesis
    using range draws by simp
qed

text \<open>
  C6. For a state without null pointers, a range \<open>E_min \<le> E_max\<close> and at least one sample,
  \<^verbatim>\<open>test\<close> returns a finite float between \<open>0\<close> and \<open>1\<close>.
\<close>

theorem test_in_unit_interval:
  assumes "defined_state system" and "\<not> E_max this <s E_min this" and "n \<noteq> 0"
  shows "\<exists>r. test L this system n seed = Inr (Finite r) \<and> 0 \<le> r \<and> r \<le> 1"
proof -
  let ?vs = "map (draw_value L (E_min this) (E_max this) (seed_engine L seed)) [1..<Suc (unat n)]"
  from assms(1) obtain k where k: "count_contained system ?vs = Inr k" and "k \<le> length ?vs"
    using defined_state_count by blast
  moreover have "length ?vs = unat n" by (simp del: upt_Suc)
  ultimately have "k \<le> unat n" by (simp only:)
  then obtain r where "fraction k n = Finite r" and "0 \<le> r" and "r \<le> 1"
    using assms(3) fraction_range by blast
  moreover have "test L this system n seed = Inr (fraction k n)"
    unfolding test_count [OF assms(2)] k by simp
  ultimately show ?thesis by simp
qed

theorem test_in_unit_interval_witness:
  "defined_state (SegmentState 0 500) \<and> defined_state (SegmentState (- 800) 0) \<and>
   \<not> E_max \<lparr>E_min = - 1000, E_max = 1000\<rparr> <s E_min \<lparr>E_min = - 1000, E_max = 1000\<rparr> \<and>
   (3 :: 32 word) \<noteq> 0 \<and>
   test minstd \<lparr>E_min = - 1000, E_max = 1000\<rparr> (SegmentState 0 500) 3 1 =
     Inr (Finite 0) \<and>
   (0 :: rat) \<le> 0 \<and> (0 :: rat) \<le> 1 \<and>
   test minstd \<lparr>E_min = - 1000, E_max = 1000\<rparr> (SegmentState (- 800) 0) 3 1 =
     Inr (Finite (11184811 / 16777216)) \<and>
   (0 :: rat) \<le> 11184811 / 16777216 \<and> (11184811 / 16777216 :: rat) \<le> 1"
proof -
  let ?T = "\<lparr>E_min = - 1000, E_max = 1000\<rparr>"
  have d: "defined_state (SegmentState 0 500)" and d': "defined_state (SegmentState (- 800) 0)"
    by simp_all
  have range: "\<not> E_max ?T <s E_min ?T" by code_simp
  have n: "(3 :: 32 word) \<noteq> 0" by simp
  have v: "test minstd ?T (SegmentState 0 500) 3 1 = Inr (Finite 0)"
    by code_simp
  have v': "test minstd ?T (SegmentState (- 800) 0) 3 1 = Inr (Finite (11184811 / 16777216))"
    by code_simp
  from test_in_unit_interval [OF d range n, of minstd 1] v
  have "(0 :: rat) \<le> 0 \<and> (0 :: rat) \<le> 1"
    by simp
  moreover from test_in_unit_interval [OF d' range n, of minstd 1] v'
  have "(0 :: rat) \<le> 11184811 / 16777216 \<and> (11184811 / 16777216 :: rat) \<le> 1"
    by simp
  ultimately show ?thesis
    using d d' range n v v' by simp
qed

text \<open>
  C2. With no sample the loop does not run, \<^verbatim>\<open>contains\<close> is not called, and the quotient
  is \<open>0 / 0\<close> in single precision: \<^verbatim>\<open>test\<close> returns \<open>NaN\<close>, for every state and seed and
  every range \<open>E_min \<le> E_max\<close>.
\<close>

theorem test_no_sample:
  assumes "\<not> E_max this <s E_min this"
  shows "test L this system 0 seed = Inr NaN"
  by (simp add: test_count [OF assms] fraction_def float_div_zero)

theorem test_no_sample_witness:
  "\<not> E_max \<lparr>E_min = - 1000, E_max = 1000\<rparr> <s E_min \<lparr>E_min = - 1000, E_max = 1000\<rparr> \<and>
   test minstd \<lparr>E_min = - 1000, E_max = 1000\<rparr> (SegmentState 0 500) 0 1 = Inr NaN \<and>
   test minstd \<lparr>E_min = - 1000, E_max = 1000\<rparr> InverseState_create 0 1 = Inr NaN"
proof -
  have range: "\<not> E_max \<lparr>E_min = - 1000, E_max = 1000\<rparr> <s E_min \<lparr>E_min = - 1000, E_max = 1000\<rparr>"
    by code_simp
  from range test_no_sample [OF range, of minstd "SegmentState 0 500" 1]
    test_no_sample [OF range, of minstd InverseState_create 1]
  show ?thesis by simp
qed

section \<open>Determinism and termination\<close>

text \<open>
  C4. Two runs of \<^verbatim>\<open>test\<close> on the same state, range, sample count and seed have the same
  outcome: the same float, from the same engine state after the same number of draws.
\<close>

theorem test_deterministic:
  assumes "test_exec L this system test_count seed r"
    and "test_exec L this system test_count seed r'"
  shows "r' = r"
  using assms(1)
proof (cases rule: test_exec.cases)
  case bad_range
  with assms(2) show ?thesis
    by (cases rule: test_exec.cases) simp_all
next
  case first: (undefined_run v st1 e)
  from assms(2) show ?thesis
  proof (cases rule: test_exec.cases)
    case bad_range
    with first show ?thesis by simp
  next
    case (undefined_run v' st1' e')
    with first have "loop_exec L this system test_count (0, 0, st1) (Inl e')" by simp
    with first(4) have "Inl e' = (Inl e :: fault + 32 word \<times> 'a engine)"
      by (rule loop_exec_deterministic)
    with first undefined_run show ?thesis by simp
  next
    case (returns v' st1' good' st')
    with first have "loop_exec L this system test_count (0, 0, st1) (Inr (good', st'))" by simp
    with first(4) have "Inr (good', st') = (Inl e :: fault + 32 word \<times> 'a engine)"
      by (rule loop_exec_deterministic)
    then show ?thesis by simp
  qed
next
  case first: (returns v st1 good st)
  from assms(2) show ?thesis
  proof (cases rule: test_exec.cases)
    case bad_range
    with first show ?thesis by simp
  next
    case (undefined_run v' st1' e')
    with first have "loop_exec L this system test_count (0, 0, st1) (Inl e')" by simp
    with first(4) have "Inl e' = (Inr (good, st) :: fault + 32 word \<times> 'a engine)"
      by (rule loop_exec_deterministic)
    then show ?thesis by simp
  next
    case (returns v' st1' good' st')
    with first have "loop_exec L this system test_count (0, 0, st1) (Inr (good', st'))" by simp
    with first(4) have "Inr (good', st') = (Inr (good, st) :: fault + 32 word \<times> 'a engine)"
      by (rule loop_exec_deterministic)
    with first returns show ?thesis by simp
  qed
qed

theorem test_deterministic_witness:
  "test_exec minstd \<lparr>E_min = - 1000, E_max = 1000\<rparr> (SegmentState 0 500) 3 1
     (Inr (Finite 0, \<lparr>reng = 984943658, ndraws = 4\<rparr>)) \<and>
   test_exec minstd \<lparr>E_min = - 1000, E_max = 1000\<rparr> (SegmentState 0 500) 3 1
     (test_run minstd \<lparr>E_min = - 1000, E_max = 1000\<rparr> (SegmentState 0 500) 3 1) \<and>
   test_run minstd \<lparr>E_min = - 1000, E_max = 1000\<rparr> (SegmentState 0 500) 3 1 =
     Inr (Finite 0, \<lparr>reng = 984943658, ndraws = 4\<rparr>)"
proof -
  let ?T = "\<lparr>E_min = - 1000, E_max = 1000\<rparr>"
  have run: "test_exec minstd ?T (SegmentState 0 500) 3 1
      (test_run minstd ?T (SegmentState 0 500) 3 1)"
    by (rule test_exec_test_run)
  have "test_run minstd ?T (SegmentState 0 500) 3 1 =
      Inr (Finite 0, \<lparr>reng = 984943658, ndraws = 4\<rparr>)"
    by code_simp
  with run have other: "test_exec minstd ?T (SegmentState 0 500) 3 1
      (Inr (Finite 0, \<lparr>reng = 984943658, ndraws = 4\<rparr>))"
    by simp
  from test_deterministic [OF other run] run other show ?thesis
    by simp
qed

text \<open>
  C5 (as stated). The claim has a run consume exactly \<open>sampleCount\<close> draws. A run with
  three samples makes four calls of the distribution.
\<close>

theorem test_run_draws_one_more:
  "test_run minstd \<lparr>E_min = - 1000, E_max = 1000\<rparr> (SegmentState 0 500) 3 1 =
     Inr (Finite 0, \<lparr>reng = 984943658, ndraws = 4\<rparr>) \<and>
   ndraws \<lparr>reng = 984943658 :: int, ndraws = 4\<rparr> \<noteq> unat (3 :: 32 word)"
  by code_simp

text \<open>
  C5 (amended). Every run of \<^verbatim>\<open>test\<close> ends. A run on a state without null pointers and a
  range \<open>E_min \<le> E_max\<close> returns after exactly \<open>sampleCount + 1\<close> draws: the dropped one
  and one for each round of the loop.
\<close>

theorem test_terminates:
  "(\<exists>out. test_exec L this system n seed out) \<and>
   (defined_state system \<and> \<not> E_max this <s E_min this \<longrightarrow>
    (\<exists>r st. test_run L this system n seed = Inr (r, st) \<and> ndraws st = Suc (unat n)))"
proof
  show "\<exists>out. test_exec L this system n seed out"
    using test_exec_test_run by blast
next
  show "defined_state system \<and> \<not> E_max this <s E_min this \<longrightarrow>
    (\<exists>r st. test_run L this system n seed = Inr (r, st) \<and> ndraws st = Suc (unat n))"
  proof
    assume a: "defined_state system \<and> \<not> E_max this <s E_min this"
    let ?vs = "map (draw_value L (E_min this) (E_max this) (seed_engine L seed))
      [1..<Suc (unat n)]"
    from a obtain k where k: "count_contained system ?vs = Inr k"
      using defined_state_count by blast
    from a have range: "\<not> E_max this <s E_min this" by simp
    have "test_run L this system n seed =
        Inr (fraction k n,
          \<lparr>reng = engine_after L (E_min this) (E_max this) (seed_engine L seed) (Suc (unat n)),
           ndraws = Suc (unat n)\<rparr>)"
      by (simp only: test_run_count [OF range] k sum.case)
    then show "\<exists>r st. test_run L this system n seed = Inr (r, st) \<and> ndraws st = Suc (unat n)"
      by simp
  qed
qed

theorem test_terminates_witness:
  "defined_state (SegmentState 0 500) \<and>
   \<not> E_max \<lparr>E_min = - 1000, E_max = 1000\<rparr> <s E_min \<lparr>E_min = - 1000, E_max = 1000\<rparr> \<and>
   (\<exists>r st. test_run minstd \<lparr>E_min = - 1000, E_max = 1000\<rparr> (SegmentState 0 500) 3 1 =
      Inr (r, st) \<and> ndraws st = Suc (unat (3 :: 32 word)))"
proof -
  let ?T = "\<lparr>E_min = - 1000, E_max = 1000\<rparr>"
  have d: "defined_state (SegmentState 0 500)" by simp
  have range: "\<not> E_max ?T <s E_min ?T" by code_simp
  from test_terminates [of minstd ?T "SegmentState 0 500" 3 1] d range
  show ?thesis by blast
qed

end
